theory Spec2Isabelle
  imports Main
begin

section \<open>The data model of \<open>src/antiRateLimit.ts\<close>\<close>

text \<open>
  JavaScript numbers are modelled as \<open>int\<close> (the options and counters are whole numbers);
  an optional field is an \<open>option\<close>, \<open>None\<close> standing for \<open>undefined\<close>.
  \<open>x || d\<close> on an optional number yields \<open>d\<close> when \<open>x\<close> is falsy, that is
  \<open>undefined\<close> or \<open>0\<close>.
\<close>

definition js_or :: "int option \<Rightarrow> int \<Rightarrow> int" where
  "js_or x d = (case x of None \<Rightarrow> d | Some n \<Rightarrow> if n = 0 then d else n)"

text \<open>Interface \<open>RateLimiterOptions\<close>.\<close>

record RateLimiterOptions =
  maxRequests_opt :: int
  interval_opt :: int
  concurrency_opt :: "int option"
  retryLimit_opt :: "int option"

text \<open>
  Interface \<open>Task\<close>. The field \<open>execute\<close> is an opaque thunk supplied by the caller: it is
  not data of the model. Calling it is recorded in the field \<open>executions\<close> of the scheduler
  state below, and the settlement of the promise it returns reaches the scheduler as an
  event \<open>Settled\<close>.
\<close>

record Task =
  idT :: string
  priority :: "int option"

text \<open>
  Interface \<open>InternalTask extends Task\<close>. The pair \<open>resolve\<close>, \<open>reject\<close> belongs to the
  promise created by \<open>addTask\<close>; it is represented by the index of that promise in the list
  of promises of the state.
\<close>

record InternalTask = Task +
  promise :: nat
  retries :: int

datatype 'a outcome = Ok 'a | Fail 'a

datatype 'a future = Pending | Fulfilled 'a | Rejected 'a

text \<open>
  Class \<open>AntiRateLimit\<close>: the seven private fields, followed by the part of the run-time
  the class acts upon:
  \<^item> \<open>awaiting\<close>: the invocations of \<open>processQueue\<close> suspended at
    \<open>await task.execute()\<close>, each with the task it holds;
  \<^item> \<open>promises\<close>: the promises created by \<open>addTask\<close>, in creation order;
  \<^item> \<open>executions\<close>: the calls \<open>task.execute()\<close> made so far, each named by the promise
    of its task, in call order;
  \<^item> \<open>timers\<close>: the periods of the interval timers registered with the host and not
    cleared.
\<close>

record 'a AntiRateLimit =
  maxRequests :: int
  interval :: int
  concurrency :: int
  retryLimit :: int
  queue :: "InternalTask list"
  activeTasks :: int
  requestCount :: int
  awaiting :: "InternalTask list"
  promises :: "'a future list"
  executions :: "nat list"
  timers :: "int list"

section \<open>The operations\<close>

text \<open>The constructor; \<open>setInterval\<close> registers the timer, whose handle is dropped.\<close>

definition constructor :: "RateLimiterOptions \<Rightarrow> 'a AntiRateLimit" where
  "constructor options =
     \<lparr> maxRequests = maxRequests_opt options,
       interval = interval_opt options,
       concurrency = js_or (concurrency_opt options) 1,
       retryLimit = js_or (retryLimit_opt options) 3,
       queue = [],
       activeTasks = 0,
       requestCount = 0,
       awaiting = [],
       promises = [],
       executions = [],
       timers = [interval_opt options] \<rparr>"

text \<open>
  \<open>this.queue.sort((a, b) => (b.priority || 0) - (a.priority || 0))\<close>:
  \<open>Array.prototype.sort\<close> is stable, and places \<open>a\<close> before \<open>b\<close> when the comparator is
  not positive. \<open>compareFn\<close> is the comparator, \<open>sort_queue\<close> the stable insertion sort by it.
\<close>

definition compareFn :: "InternalTask \<Rightarrow> InternalTask \<Rightarrow> int" where
  "compareFn a b = js_or (priority b) 0 - js_or (priority a) 0"

fun insert_task :: "InternalTask \<Rightarrow> InternalTask list \<Rightarrow> InternalTask list" where
  "insert_task a [] = [a]"
| "insert_task a (b # bs) = (if compareFn a b \<le> 0 then a # b # bs else b # insert_task a bs)"

definition sort_queue :: "InternalTask list \<Rightarrow> InternalTask list" where
  "sort_queue q = foldr insert_task q []"

text \<open>
  \<open>processQueue\<close>, from its call (or from the re-evaluation of the loop condition) to the
  point where it suspends or returns. The body of the loop awaits the task it has started,
  so one synchronous run starts at most one task: it checks the condition, shifts the head
  of the queue, increments both counters, calls \<open>task.execute()\<close> and suspends at the
  \<open>await\<close>. \<open>shift\<close> on a non-empty array never yields \<open>undefined\<close>, so the early
  \<open>return\<close> is not taken.
\<close>

definition processQueue :: "'a AntiRateLimit \<Rightarrow> 'a AntiRateLimit" where
  "processQueue s =
     (case queue s of
        [] \<Rightarrow> s
      | task # rest \<Rightarrow>
          if activeTasks s < concurrency s \<and> requestCount s < maxRequests s
          then s \<lparr> queue := rest,
                   activeTasks := activeTasks s + 1,
                   requestCount := requestCount s + 1,
                   executions := executions s @ [promise task],
                   awaiting := awaiting s @ [task] \<rparr>
          else s)"

text \<open>
  \<open>addTask\<close>: the executor of the new promise wraps the task, pushes it, sorts the queue and
  calls \<open>processQueue\<close>. The result is the index of the future handed to the caller, and
  the new state.
\<close>

definition addTask :: "Task \<Rightarrow> 'a AntiRateLimit \<Rightarrow> nat \<times> 'a AntiRateLimit" where
  "addTask task s =
     (let p = length (promises s);
          wrappedTask = \<lparr> idT = idT task, priority = priority task, promise = p, retries = 0 \<rparr>
      in (p, processQueue (s \<lparr> promises := promises s @ [Pending],
                               queue := sort_queue (queue s @ [wrappedTask]) \<rparr>)))"

text \<open>Settling a promise: only a pending promise changes.\<close>

definition settle :: "nat \<Rightarrow> 'a future \<Rightarrow> 'a AntiRateLimit \<Rightarrow> 'a AntiRateLimit" where
  "settle p v s =
     (if p < length (promises s) \<and> promises s ! p = Pending
      then s \<lparr> promises := (promises s)[p := v] \<rparr> else s)"

text \<open>
  The continuation of \<open>processQueue\<close> after \<open>await task.execute()\<close>, for the invocation
  holding \<open>task\<close>: the \<open>try\<close> branch on success, the \<open>catch\<close> branch on failure, then
  \<open>finally\<close>: the decrement and the nested call of \<open>processQueue\<close>, which runs until it
  suspends or returns; after it the loop condition of this invocation is evaluated again.
\<close>

definition resume :: "InternalTask \<Rightarrow> 'a outcome \<Rightarrow> 'a AntiRateLimit \<Rightarrow> 'a AntiRateLimit" where
  "resume task r s =
     (let s1 = (case r of
                  Ok result \<Rightarrow> settle (promise task) (Fulfilled result) s
                | Fail error \<Rightarrow>
                    if retries task < retryLimit s
                    then s \<lparr> queue := queue s @ [task \<lparr> retries := retries task + 1 \<rparr>] \<rparr>
                    else settle (promise task) (Rejected error) s);
          s2 = s1 \<lparr> activeTasks := activeTasks s1 - 1 \<rparr>
      in processQueue (processQueue s2))"

text \<open>The callback of the interval timer.\<close>

definition tick :: "'a AntiRateLimit \<Rightarrow> 'a AntiRateLimit" where
  "tick s = processQueue (s \<lparr> requestCount := 0 \<rparr>)"

section \<open>Runs of the scheduler\<close>

text \<open>
  What can happen to a scheduler: a caller submits a task, the timer fires, or the promise
  returned by \<open>execute\<close> for the task of promise \<open>p\<close> settles and the suspended invocation
  holding that task continues. The timer fires only while it is registered, and a
  settlement needs an invocation awaiting it: \<open>step\<close> is \<open>None\<close> otherwise.

  JavaScript runs each of these to completion before the next one starts, so a run is a
  sequence of events. A thunk that throws before it returns a promise takes the \<open>catch\<close>
  branch within the run that called it: this is the run in which the failure \<open>Settled\<close>
  comes right after the event that started the task.
\<close>

datatype 'a event = AddTask Task | Tick | Settled nat "'a outcome"

definition step :: "'a event \<Rightarrow> 'a AntiRateLimit \<Rightarrow> 'a AntiRateLimit option" where
  "step e s =
     (case e of
        AddTask task \<Rightarrow> Some (snd (addTask task s))
      | Tick \<Rightarrow> if timers s = [] then None else Some (tick s)
      | Settled p r \<Rightarrow>
          (case find (\<lambda>t. promise t = p) (awaiting s) of
             None \<Rightarrow> None
           | Some task \<Rightarrow> Some (resume task r (s \<lparr> awaiting := remove1 task (awaiting s) \<rparr>))))"

fun run :: "'a event list \<Rightarrow> 'a AntiRateLimit \<Rightarrow> 'a AntiRateLimit option" where
  "run [] s = Some s"
| "run (e # es) s = (case step e s of None \<Rightarrow> None | Some s' \<Rightarrow> run es s')"

section \<open>Notions used to state the properties\<close>

subsection \<open>Counter bounds\<close>

text \<open>
  The two counters stay inside their limits, and the gate counter is the number of
  suspended invocations (every decrement is paired with an earlier increment).
\<close>

definition within_bounds :: "'a AntiRateLimit \<Rightarrow> bool" where
  "within_bounds s \<longleftrightarrow>
     0 \<le> requestCount s \<and> requestCount s \<le> maxRequests s \<and>
     0 \<le> activeTasks s \<and> activeTasks s \<le> concurrency s \<and>
     activeTasks s = int (length (awaiting s))"

text \<open>
  The number of calls of \<open>execute\<close> made since the last reset of the window, read off a
  run: the count restarts at a \<open>Tick\<close> (the calls made by the callback itself belong to
  the new window). It is computed from \<open>executions\<close> alone, not from \<open>requestCount\<close>.
\<close>

fun started_in_window :: "'a event list \<Rightarrow> 'a AntiRateLimit \<Rightarrow> nat \<Rightarrow> nat" where
  "started_in_window [] s n = n"
| "started_in_window (e # es) s n =
     (case step e s of
        None \<Rightarrow> n
      | Some s' \<Rightarrow>
          started_in_window es s'
            ((case e of Tick \<Rightarrow> 0 | _ \<Rightarrow> n) + (length (executions s') - length (executions s))))"

subsection \<open>The life of one task\<close>

text \<open>The outcomes of the executions of the task of promise \<open>p\<close>, in the order of a run.\<close>

fun outcomes :: "nat \<Rightarrow> 'a event list \<Rightarrow> 'a outcome list" where
  "outcomes p [] = []"
| "outcomes p (AddTask t # es) = outcomes p es"
| "outcomes p (Tick # es) = outcomes p es"
| "outcomes p (Settled q r # es) = (if q = p then r # outcomes p es else outcomes p es)"

text \<open>
  The retry policy as the specification words it, for one task taken alone. A task is
  live with a retry count, or finished with the value of its future. On success the
  future is fulfilled; on failure the task is retried while its retry count is below the
  limit, and rejected with that failure otherwise.
\<close>

datatype 'a lifecycle = Live int | Finished "'a future"

fun attempt :: "int \<Rightarrow> 'a lifecycle \<Rightarrow> 'a outcome \<Rightarrow> 'a lifecycle" where
  "attempt L (Live k) (Ok v) = Finished (Fulfilled v)"
| "attempt L (Live k) (Fail e) = (if k < L then Live (k + 1) else Finished (Rejected e))"
| "attempt L (Finished f) r = Finished f"

definition lifecycle :: "int \<Rightarrow> 'a outcome list \<Rightarrow> 'a lifecycle" where
  "lifecycle L os = foldl (attempt L) (Live 0) os"

fun future_of :: "'a lifecycle \<Rightarrow> 'a future" where
  "future_of (Live k) = Pending"
| "future_of (Finished f) = f"

text \<open>The tasks the scheduler holds: queued, or held by a suspended invocation.\<close>

definition live :: "'a AntiRateLimit \<Rightarrow> InternalTask list" where
  "live s = queue s @ awaiting s"

text \<open>
  The invariant tying a state to the run that led to it: no task is held twice; a held
  task carries the retry count its own outcomes give; a future has the value the
  outcomes of its task give, and a task that is not finished is held; promises not yet
  created have no outcome; \<open>execute\<close> was called once per outcome, and once more for a
  task being awaited; no outcome follows the end of a task.
\<close>

definition consistent :: "'a AntiRateLimit \<Rightarrow> 'a event list \<Rightarrow> bool" where
  "consistent s evs \<longleftrightarrow>
     distinct (map promise (live s)) \<and>
     (\<forall>t \<in> set (live s). promise t < length (promises s) \<and>
         lifecycle (retryLimit s) (outcomes (promise t) evs) = Live (retries t)) \<and>
     (\<forall>p < length (promises s).
         promises s ! p = future_of (lifecycle (retryLimit s) (outcomes p evs)) \<and>
         ((\<exists>k. lifecycle (retryLimit s) (outcomes p evs) = Live k) \<longrightarrow> p \<in> promise ` set (live s))) \<and>
     (\<forall>p. length (promises s) \<le> p \<longrightarrow> outcomes p evs = []) \<and>
     (\<forall>p. count_list (executions s) p =
            length (outcomes p evs) + (if p \<in> promise ` set (awaiting s) then 1 else 0)) \<and>
     (\<forall>p n. n < length (outcomes p evs) \<longrightarrow>
            (\<exists>k. lifecycle (retryLimit s) (take n (outcomes p evs)) = Live k))"

subsection \<open>Repeated invocations of \<open>processQueue\<close>\<close>

text \<open>
  How many tasks the state lets start: bounded by the queue, the gate and the window.
  \<open>admit k\<close> is the state after the first \<open>k\<close> queued tasks have been started.
\<close>

definition headroom :: "'a AntiRateLimit \<Rightarrow> nat" where
  "headroom s = min (length (queue s))
                  (min (nat (concurrency s - activeTasks s)) (nat (maxRequests s - requestCount s)))"

definition admit :: "nat \<Rightarrow> 'a AntiRateLimit \<Rightarrow> 'a AntiRateLimit" where
  "admit k s = s \<lparr> queue := drop k (queue s),
                   activeTasks := activeTasks s + int k,
                   requestCount := requestCount s + int k,
                   executions := executions s @ map promise (take k (queue s)),
                   awaiting := awaiting s @ take k (queue s) \<rparr>"

subsection \<open>The order of the queue\<close>

text \<open>
  \<open>precedes a b\<close>: \<open>a\<close> is to be dequeued before \<open>b\<close>, by higher priority, and among equal
  priorities by earlier submission (promises are numbered in submission order).
\<close>

definition prio :: "InternalTask \<Rightarrow> int" where
  "prio t = js_or (priority t) 0"

definition precedes :: "InternalTask \<Rightarrow> InternalTask \<Rightarrow> bool" where
  "precedes a b \<longleftrightarrow> prio b < prio a \<or> (prio b = prio a \<and> promise a < promise b)"

definition in_order :: "'a AntiRateLimit \<Rightarrow> bool" where
  "in_order s \<longleftrightarrow> sorted_wrt precedes (queue s) \<and>
                  (\<forall>t \<in> set (queue s). promise t < length (promises s))"

fun no_failure :: "'a event \<Rightarrow> bool" where
  "no_failure (Settled p (Fail e)) = False"
| "no_failure _ = True"

subsection \<open>Thunks and the runs that agree with them\<close>

text \<open>
  The behaviour of the thunks: \<open>thunks p i\<close> is the outcome of execution number \<open>i\<close>
  (counted from 0) of the task of promise \<open>p\<close>. A continuation \<open>evs\<close> of a run \<open>E\<close> agrees
  with the thunks when every settlement in it carries the outcome the thunks give for that
  execution.
\<close>

fun agrees :: "(nat \<Rightarrow> nat \<Rightarrow> 'a outcome) \<Rightarrow> 'a event list \<Rightarrow> 'a event list \<Rightarrow> bool" where
  "agrees thunks E [] = True"
| "agrees thunks E (e # es) =
     ((case e of Settled q r \<Rightarrow> r = thunks q (length (outcomes q E)) | _ \<Rightarrow> True) \<and>
      agrees thunks (E @ [e]) es)"


text \<open>
  The retry limit as the caller configures it: the option \<open>retryLimit\<close>, and the documented
  default 3 when the option is absent. (The field \<open>retryLimit\<close> of the scheduler is what the
  constructor makes of it.)
\<close>

definition configured_retryLimit :: "RateLimiterOptions \<Rightarrow> int" where
  "configured_retryLimit options = (case retryLimit_opt options of None \<Rightarrow> 3 | Some n \<Rightarrow> n)"

subsection \<open>What invokes the scheduling pass\<close>

text \<open>
  With no submission and no reset of the window, \<open>processQueue\<close> is invoked by a direct call
  (\<open>Invoke\<close>: the pass up to its \<open>await\<close>), or from the continuation of an execution that
  has settled (\<open>Completion\<close>: \<open>finally\<close> calls \<open>processQueue\<close> and the loop is tested
  again). A thunk that throws before returning a promise is a \<open>Completion\<close> with a failure
  right after the invocation that started it: that invocation goes on through \<open>catch\<close>,
  \<open>finally\<close> and the loop test.
\<close>

datatype 'a trigger = Invoke | Completion nat "'a outcome"

fun fire :: "'a trigger \<Rightarrow> 'a AntiRateLimit \<Rightarrow> 'a AntiRateLimit option" where
  "fire Invoke s = Some (processQueue s)"
| "fire (Completion p r) s = step (Settled p r) s"

fun fire_all :: "'a trigger list \<Rightarrow> 'a AntiRateLimit \<Rightarrow> 'a AntiRateLimit option" where
  "fire_all [] s = Some s"
| "fire_all (t # ts) s = (case fire t s of None \<Rightarrow> None | Some s' \<Rightarrow> fire_all ts s')"

section \<open>Example runs\<close>

definition readme_options :: RateLimiterOptions where
  "readme_options = \<lparr> maxRequests_opt = 5, interval_opt = 1000,
                       concurrency_opt = Some 2, retryLimit_opt = Some 3 \<rparr>"

definition zero_retry_options :: RateLimiterOptions where
  "zero_retry_options = \<lparr> maxRequests_opt = 10, interval_opt = 1000,
                           concurrency_opt = None, retryLimit_opt = Some 0 \<rparr>"

definition two_retry_options :: RateLimiterOptions where
  "two_retry_options = \<lparr> maxRequests_opt = 10, interval_opt = 1000,
                          concurrency_opt = None, retryLimit_opt = Some 2 \<rparr>"

definition wide_options :: RateLimiterOptions where
  "wide_options = \<lparr> maxRequests_opt = 2, interval_opt = 1000,
                     concurrency_opt = Some 4, retryLimit_opt = None \<rparr>"

definition zero_concurrency_options :: RateLimiterOptions where
  "zero_concurrency_options = \<lparr> maxRequests_opt = 5, interval_opt = 1000,
                                 concurrency_opt = Some 0, retryLimit_opt = None \<rparr>"

definition job :: "string \<Rightarrow> Task" where
  "job name = \<lparr> idT = name, priority = None \<rparr>"

definition task_A :: Task where
  "task_A = \<lparr> idT = ''A'', priority = Some 10 \<rparr>"

definition task_B :: Task where
  "task_B = \<lparr> idT = ''B'', priority = Some 1 \<rparr>"

definition task_C :: Task where
  "task_C = \<lparr> idT = ''C'', priority = Some 1 \<rparr>"

text \<open>Six jobs that all succeed, under the options of the README: the sixth has to wait.\<close>

definition six_jobs :: "string event list" where
  "six_jobs = [AddTask (job ''1''), AddTask (job ''2''), AddTask (job ''3''),
     Settled 0 (Ok ''r1''), Settled 1 (Ok ''r2''), Settled 2 (Ok ''r3''),
     AddTask (job ''4''), Settled 3 (Ok ''r4''), AddTask (job ''5''), Settled 4 (Ok ''r5''),
     AddTask (job ''6'')]"

definition six_jobs_state :: "string AntiRateLimit" where
  "six_jobs_state =
     \<lparr> maxRequests = 5, interval = 1000, concurrency = 2, retryLimit = 3,
       queue = [\<lparr> idT = ''6'', priority = None, promise = 5, retries = 0 \<rparr>],
       activeTasks = 0, requestCount = 5, awaiting = [],
       promises = [Fulfilled ''r1'', Fulfilled ''r2'', Fulfilled ''r3'',
                   Fulfilled ''r4'', Fulfilled ''r5'', Pending],
       executions = [0, 1, 2, 3, 4], timers = [1000] \<rparr>"





text \<open>Four jobs under a window of two and a gate of four: two run, two wait.\<close>

definition two_waiting :: "string AntiRateLimit" where
  "two_waiting =
     \<lparr> maxRequests = 2, interval = 1000, concurrency = 4, retryLimit = 3,
       queue = [\<lparr> idT = ''3'', priority = None, promise = 2, retries = 0 \<rparr>,
                \<lparr> idT = ''4'', priority = None, promise = 3, retries = 0 \<rparr>],
       activeTasks = 2, requestCount = 2,
       awaiting = [\<lparr> idT = ''1'', priority = None, promise = 0, retries = 0 \<rparr>,
                   \<lparr> idT = ''2'', priority = None, promise = 1, retries = 0 \<rparr>],
       promises = [Pending, Pending, Pending, Pending], executions = [0, 1],
       timers = [1000] \<rparr>"

text \<open>A job done and another one running.\<close>

definition one_done_one_running :: "string AntiRateLimit" where
  "one_done_one_running =
     \<lparr> maxRequests = 5, interval = 1000, concurrency = 2, retryLimit = 3,
       queue = [], activeTasks = 1, requestCount = 2,
       awaiting = [\<lparr> idT = ''2'', priority = None, promise = 1, retries = 0 \<rparr>],
       promises = [Fulfilled ''done'', Pending], executions = [0, 1], timers = [1000] \<rparr>"



text \<open>
  Three jobs running and three waiting (T, U, V) under a window of three and a gate of
  six, and the state after \<open>processQueue\<close> has been invoked once on the reset window and
  the thunk of T has thrown at once.
\<close>

definition wide3_options :: RateLimiterOptions where
  "wide3_options = \<lparr> maxRequests_opt = 3, interval_opt = 1000,
                      concurrency_opt = Some 6, retryLimit_opt = Some 1 \<rparr>"

definition three_waiting :: "string AntiRateLimit" where
  "three_waiting =
     \<lparr> maxRequests = 3, interval = 1000, concurrency = 6, retryLimit = 1,
       queue = [\<lparr> idT = ''T'', priority = None, promise = 3, retries = 0 \<rparr>,
                \<lparr> idT = ''U'', priority = None, promise = 4, retries = 0 \<rparr>,
                \<lparr> idT = ''V'', priority = None, promise = 5, retries = 0 \<rparr>],
       activeTasks = 3, requestCount = 3,
       awaiting = [\<lparr> idT = ''1'', priority = None, promise = 0, retries = 0 \<rparr>,
                   \<lparr> idT = ''2'', priority = None, promise = 1, retries = 0 \<rparr>,
                   \<lparr> idT = ''3'', priority = None, promise = 2, retries = 0 \<rparr>],
       promises = [Pending, Pending, Pending, Pending, Pending, Pending],
       executions = [0, 1, 2], timers = [1000] \<rparr>"

definition after_throw :: "string AntiRateLimit" where
  "after_throw =
     \<lparr> maxRequests = 3, interval = 1000, concurrency = 6, retryLimit = 1,
       queue = [\<lparr> idT = ''T'', priority = None, promise = 3, retries = 1 \<rparr>],
       activeTasks = 5, requestCount = 3,
       awaiting = [\<lparr> idT = ''1'', priority = None, promise = 0, retries = 0 \<rparr>,
                   \<lparr> idT = ''2'', priority = None, promise = 1, retries = 0 \<rparr>,
                   \<lparr> idT = ''3'', priority = None, promise = 2, retries = 0 \<rparr>,
                   \<lparr> idT = ''U'', priority = None, promise = 4, retries = 0 \<rparr>,
                   \<lparr> idT = ''V'', priority = None, promise = 5, retries = 0 \<rparr>],
       promises = [Pending, Pending, Pending, Pending, Pending, Pending],
       executions = [0, 1, 2, 3, 4, 5], timers = [1000] \<rparr>"

section \<open>Basic facts about the operations\<close>

lemmas model_defs = constructor_def step_def addTask_def processQueue_def sort_queue_def
  compareFn_def js_or_def resume_def settle_def tick_def


lemma processQueue_config [simp]:
  "maxRequests (processQueue s) = maxRequests s"
  "concurrency (processQueue s) = concurrency s"
  "retryLimit (processQueue s) = retryLimit s"
  "interval (processQueue s) = interval s"
  "timers (processQueue s) = timers s"
  "promises (processQueue s) = promises s"
  by (simp_all add: processQueue_def split: list.split)

lemma settle_fields [simp]:
  "maxRequests (settle p v s) = maxRequests s"
  "concurrency (settle p v s) = concurrency s"
  "retryLimit (settle p v s) = retryLimit s"
  "interval (settle p v s) = interval s"
  "timers (settle p v s) = timers s"
  "queue (settle p v s) = queue s"
  "awaiting (settle p v s) = awaiting s"
  "executions (settle p v s) = executions s"
  "activeTasks (settle p v s) = activeTasks s"
  "requestCount (settle p v s) = requestCount s"
  "length (promises (settle p v s)) = length (promises s)"
  by (simp_all add: settle_def)

lemma resume_config [simp]:
  "maxRequests (resume t r s) = maxRequests s"
  "concurrency (resume t r s) = concurrency s"
  "retryLimit (resume t r s) = retryLimit s"
  "interval (resume t r s) = interval s"
  "timers (resume t r s) = timers s"
  by (simp_all add: resume_def Let_def split: outcome.split)

lemma step_config:
  assumes "step e s = Some s'"
  shows "maxRequests s' = maxRequests s" "concurrency s' = concurrency s"
    "retryLimit s' = retryLimit s" "interval s' = interval s" "timers s' = timers s"
  using assms
  by (auto simp add: step_def addTask_def Let_def tick_def
      split: event.splits if_splits option.splits)

lemma run_config:
  assumes "run evs s = Some s'"
  shows "maxRequests s' = maxRequests s \<and> concurrency s' = concurrency s \<and>
    retryLimit s' = retryLimit s \<and> interval s' = interval s \<and> timers s' = timers s"
  using assms
proof (induction evs arbitrary: s)
  case Nil
  then show ?case by simp
next
  case (Cons e evs)
  from Cons.prems obtain s1 where s1: "step e s = Some s1" and r: "run evs s1 = Some s'"
    by (auto split: option.splits)
  from Cons.IH [OF r] step_config [OF s1] show ?case by simp
qed

lemma find_Some_mem: "find P xs = Some x \<Longrightarrow> x \<in> set xs \<and> P x"
  by (induction xs) (auto split: if_splits)

lemma set_insert_task [simp]: "set (insert_task a q) = insert a (set q)"
  by (induction q) auto

lemma distinct_insert_task [simp]:
  "distinct (map f (insert_task a q)) \<longleftrightarrow> f a \<notin> f ` set q \<and> distinct (map f q)"
  by (induction q) auto

lemma set_sort_queue [simp]: "set (sort_queue q) = set q"
  unfolding sort_queue_def by (induction q) auto

lemma distinct_sort_queue [simp]: "distinct (map f (sort_queue q)) \<longleftrightarrow> distinct (map f q)"
  unfolding sort_queue_def by (induction q) (auto simp flip: sort_queue_def)

section \<open>Passes of \<open>processQueue\<close> in a row\<close>

text \<open>
  As long as no thunk throws before returning a promise, \<open>n\<close> passes in a row start the first
  \<open>min n h\<close> tasks of the queue, \<open>h\<close> being the headroom of the state.
\<close>

lemma admit_0 [simp]: "admit 0 s = s"
  by (simp add: admit_def)

lemma processQueue_no_headroom: "headroom s = 0 \<Longrightarrow> processQueue s = s"
  by (auto simp add: headroom_def processQueue_def split: list.split)

lemma processQueue_headroom:
  assumes "0 < headroom s"
  shows "processQueue s = admit 1 s" and "headroom (processQueue s) = headroom s - 1"
proof -
  from assms obtain t rest where q: "queue s = t # rest"
    by (cases "queue s") (auto simp add: headroom_def)
  from assms have g: "activeTasks s < concurrency s" "requestCount s < maxRequests s"
    by (auto simp add: headroom_def)
  show 1: "processQueue s = admit 1 s"
    using q g by (simp add: processQueue_def admit_def)
  show "headroom (processQueue s) = headroom s - 1"
    unfolding 1 using q g by (simp add: admit_def headroom_def) arith
qed

lemma admit_admit: "j \<le> length (queue s) \<Longrightarrow> admit k (admit j s) = admit (j + k) s"
  by (simp add: admit_def take_add add.commute)

lemma funpow_processQueue:
  "(processQueue ^^ n) s = admit (min n (headroom s)) s"
proof (induction n arbitrary: s)
  case 0
  show ?case by simp
next
  case (Suc n)
  show ?case
  proof (cases "headroom s = 0")
    case True
    then have "processQueue s = s" by (rule processQueue_no_headroom)
    then have "(processQueue ^^ Suc n) s = (processQueue ^^ n) s"
      by (simp add: funpow_swap1)
    with Suc [of s] True show ?thesis by simp
  next
    case False
    then have pos: "0 < headroom s" by simp
    have le: "1 \<le> length (queue s)" using pos by (cases "queue s") (simp_all add: headroom_def)
    have "(processQueue ^^ Suc n) s = (processQueue ^^ n) (processQueue s)"
      by (simp add: funpow_swap1)
    also have "\<dots> = admit (min n (headroom (processQueue s))) (processQueue s)"
      by (rule Suc)
    also have "\<dots> = admit (min n (headroom s - 1)) (admit 1 s)"
      using processQueue_headroom [OF pos] by simp
    also have "\<dots> = admit (1 + min n (headroom s - 1)) s"
      using le by (rule admit_admit)
    also have "1 + min n (headroom s - 1) = min (Suc n) (headroom s)"
      using pos by simp
    finally show ?thesis .
  qed
qed

lemma processQueue_twice:
  "processQueue (processQueue s) = admit (min 2 (headroom s)) s"
  using funpow_processQueue [of 2 s] by (simp add: numeral_2_eq_2)

lemma headroom_le_queue: "headroom s \<le> length (queue s)"
  by (simp add: headroom_def)

section \<open>The counters stay within their bounds\<close>

lemma within_bounds_processQueue:
  "within_bounds s \<Longrightarrow> within_bounds (processQueue s)"
  by (auto simp add: within_bounds_def processQueue_def split: list.split)

lemma within_bounds_addTask:
  "within_bounds s \<Longrightarrow> within_bounds (snd (addTask task s))"
  unfolding addTask_def Let_def snd_conv
  by (rule within_bounds_processQueue) (simp add: within_bounds_def)

lemma within_bounds_tick:
  "within_bounds s \<Longrightarrow> within_bounds (tick s)"
  unfolding tick_def
  by (rule within_bounds_processQueue) (auto simp add: within_bounds_def)

lemma within_bounds_resume:
  assumes "within_bounds s" and "task \<in> set (awaiting s)"
  shows "within_bounds (resume task' r (s \<lparr> awaiting := remove1 task (awaiting s) \<rparr>))"
proof -
  from assms(2) have pos: "0 < length (awaiting s)" by (rule length_pos_if_in_set)
  from assms(2) have "length (remove1 task (awaiting s)) = length (awaiting s) - 1"
    by (simp add: length_remove1)
  moreover from assms(1) have "activeTasks s = int (length (awaiting s))"
    by (simp add: within_bounds_def)
  ultimately
  have *: "int (length (remove1 task (awaiting s))) = activeTasks s - 1" "1 \<le> activeTasks s"
    using pos by linarith+
  show ?thesis
    unfolding resume_def Let_def
    apply (rule within_bounds_processQueue)
    apply (rule within_bounds_processQueue)
    using assms(1) *
    by (auto simp add: within_bounds_def split: outcome.split)
qed

lemma within_bounds_step:
  "within_bounds s \<Longrightarrow> step e s = Some s' \<Longrightarrow> within_bounds s'"
  by (auto simp add: step_def within_bounds_addTask within_bounds_tick within_bounds_resume
      dest: find_Some_mem split: event.splits if_splits option.splits)

lemma within_bounds_run:
  "run evs s = Some s' \<Longrightarrow> within_bounds s \<Longrightarrow> within_bounds s'"
  by (induction evs arbitrary: s) (auto simp add: within_bounds_step split: option.splits)

lemma processQueue_started:
  "length (executions s) \<le> length (executions (processQueue s))"
  "requestCount (processQueue s) =
     requestCount s + int (length (executions (processQueue s)) - length (executions s))"
  by (simp_all add: processQueue_def split: list.split)

lemma processQueue_twice_started:
  "length (executions s) \<le> length (executions (processQueue (processQueue s)))"
  "requestCount (processQueue (processQueue s)) =
     requestCount s + int (length (executions (processQueue (processQueue s))) - length (executions s))"
  using processQueue_started [of s] processQueue_started [of "processQueue s"]
  by linarith+

lemma step_started:
  assumes "step e s = Some s'"
  shows "requestCount s' = (case e of Tick \<Rightarrow> 0 | _ \<Rightarrow> requestCount s) +
           int (length (executions s') - length (executions s))"
proof (cases e)
  case (AddTask task)
  then show ?thesis
    using assms processQueue_started(2)
      [of "s \<lparr> promises := promises s @ [Pending],
              queue := sort_queue (queue s @ [\<lparr> idT = idT task, priority = priority task,
                 promise = length (promises s), retries = 0 \<rparr>]) \<rparr>"]
    by (auto simp add: step_def addTask_def Let_def)
next
  case Tick
  then show ?thesis
    using assms processQueue_started(2) [of "s \<lparr> requestCount := 0 \<rparr>"]
    by (auto simp add: step_def tick_def split: if_splits)
next
  case (Settled p r)
  with assms obtain task where
    s': "s' = resume task r (s \<lparr> awaiting := remove1 task (awaiting s) \<rparr>)"
    by (auto simp add: step_def split: option.splits)
  define s2 where "s2 = (let s0 = s \<lparr> awaiting := remove1 task (awaiting s) \<rparr>; s1 = (case r of
                  Ok result \<Rightarrow> settle (promise task) (Fulfilled result) s0
                | Fail error \<Rightarrow>
                    if retries task < retryLimit s0
                    then s0 \<lparr> queue := queue s0 @ [task \<lparr> retries := retries task + 1 \<rparr>] \<rparr>
                    else settle (promise task) (Rejected error) s0) in s1 \<lparr> activeTasks := activeTasks s1 - 1 \<rparr>)"
  have "s' = processQueue (processQueue s2)"
    by (simp add: s' s2_def resume_def Let_def)
  moreover have "requestCount s2 = requestCount s" "executions s2 = executions s"
    by (simp_all add: s2_def Let_def split: outcome.split)
  ultimately show ?thesis
    using processQueue_twice_started(2) [of s2] Settled by simp
qed

lemma started_in_window_requestCount:
  "run evs s = Some s' \<Longrightarrow> int n = requestCount s \<Longrightarrow>
     int (started_in_window evs s n) = requestCount s'"
proof (induction evs arbitrary: s n)
  case Nil
  then show ?case by simp
next
  case (Cons e evs)
  from Cons.prems(1) obtain s1 where s1: "step e s = Some s1" and r: "run evs s1 = Some s'"
    by (auto split: option.splits)
  let ?n = "(case e of Tick \<Rightarrow> 0 | _ \<Rightarrow> n) + (length (executions s1) - length (executions s))"
  have "int ?n = requestCount s1"
    using step_started [OF s1] Cons.prems(2) by (simp split: event.splits)
  from Cons.IH [OF r this] s1 show ?case by simp
qed

text \<open>
  Claim C3. Along every run of submissions, timer ticks and completions, started from a
  scheduler constructed with a non-negative \<open>maxRequests\<close> and a concurrency option that is
  absent or non-negative, the window counter stays in \<open>[0, maxRequests]\<close>, the number of
  tasks started since the last reset of the window is at most \<open>maxRequests\<close>, the in-flight
  counter stays in \<open>[0, concurrency]\<close>, and at most \<open>concurrency\<close> tasks execute at once.
\<close>

theorem counters_within_bounds:
  assumes "0 \<le> maxRequests_opt options"
    and "\<forall>c. concurrency_opt options = Some c \<longrightarrow> 0 \<le> c"
    and "run evs (constructor options) = Some s"
  shows "maxRequests s = maxRequests_opt options \<and>
         concurrency s = js_or (concurrency_opt options) 1 \<and>
         0 \<le> requestCount s \<and> requestCount s \<le> maxRequests s \<and>
         int (started_in_window evs (constructor options) 0) \<le> maxRequests s \<and>
         0 \<le> activeTasks s \<and> activeTasks s \<le> concurrency s \<and>
         int (length (awaiting s)) \<le> concurrency s"
proof -
  have "within_bounds (constructor options :: 'a AntiRateLimit)"
    using assms(1,2)
    by (cases "concurrency_opt options") (simp_all add: within_bounds_def constructor_def js_or_def)
  from within_bounds_run [OF assms(3) this] have b: "within_bounds s" .
  from run_config [OF assms(3)]
  have cfg: "maxRequests s = maxRequests_opt options"
    "concurrency s = js_or (concurrency_opt options) 1"
    by (simp_all add: constructor_def)
  have w: "int (started_in_window evs (constructor options) 0) = requestCount s"
    using assms(3) by (rule started_in_window_requestCount) (simp add: constructor_def)
  from b have "0 \<le> requestCount s" "requestCount s \<le> maxRequests s"
    "0 \<le> activeTasks s" "activeTasks s \<le> concurrency s"
    "int (length (awaiting s)) \<le> concurrency s"
    by (simp_all add: within_bounds_def)
  with w cfg show ?thesis by (intro conjI; linarith)
qed

theorem counters_within_bounds_witness:
  "run six_jobs (constructor readme_options) = Some six_jobs_state \<and>
   maxRequests six_jobs_state = 5 \<and> concurrency six_jobs_state = 2 \<and>
   requestCount six_jobs_state = 5 \<and>
   started_in_window six_jobs (constructor readme_options) 0 = 5 \<and>
   int (started_in_window six_jobs (constructor readme_options) 0) \<le> maxRequests six_jobs_state \<and>
   0 \<le> activeTasks six_jobs_state \<and> activeTasks six_jobs_state \<le> concurrency six_jobs_state \<and>
   int (length (awaiting six_jobs_state)) \<le> concurrency six_jobs_state"
proof -
  have r: "run six_jobs (constructor readme_options) = Some six_jobs_state"
    by (simp add: six_jobs_def six_jobs_state_def readme_options_def job_def model_defs)
  have w: "started_in_window six_jobs (constructor readme_options) 0 = 5"
    by (simp add: six_jobs_def readme_options_def job_def model_defs)
  have a: "0 \<le> maxRequests_opt readme_options"
    by (simp add: readme_options_def)
  have b: "\<forall>c. concurrency_opt readme_options = Some c \<longrightarrow> 0 \<le> c"
    by (simp add: readme_options_def)
  from counters_within_bounds [OF a b r] r w show ?thesis
    by (simp add: six_jobs_state_def)
qed

section \<open>Each task follows its own outcomes\<close>

lemma outcomes_append: "outcomes p (xs @ ys) = outcomes p xs @ outcomes p ys"
  by (induction p xs rule: outcomes.induct) simp_all

lemma outcomes_snoc [simp]:
  "outcomes p (evs @ [AddTask task]) = outcomes p evs"
  "outcomes p (evs @ [Tick]) = outcomes p evs"
  "outcomes p (evs @ [Settled q r]) = (if q = p then outcomes p evs @ [r] else outcomes p evs)"
  by (simp_all add: outcomes_append)

lemma lifecycle_Nil [simp]: "lifecycle L [] = Live 0"
  by (simp add: lifecycle_def)

lemma lifecycle_snoc [simp]: "lifecycle L (os @ [r]) = attempt L (lifecycle L os) r"
  by (simp add: lifecycle_def)

lemma lifecycle_failures:
  "0 \<le> L \<Longrightarrow> length es \<le> nat L \<Longrightarrow> lifecycle L (map Fail es) = Live (int (length es))"
proof (induction es rule: rev_induct)
  case Nil
  then show ?case by simp
next
  case (snoc e es)
  then show ?case by simp
qed

lemma lifecycle_exhausted:
  assumes "0 \<le> L" and "length es = nat L"
  shows "lifecycle L (map Fail (es @ [e])) = Finished (Rejected e)"
  using lifecycle_failures [OF assms(1), of es] assms by simp

lemma processQueue_live [simp]: "set (live (processQueue s)) = set (live s)"
  by (auto simp add: processQueue_def live_def split: list.split)

lemma live_fields [simp]:
  "live (s \<lparr> activeTasks := n \<rparr>) = live s"
  "live (s \<lparr> requestCount := n \<rparr>) = live s"
  "live (s \<lparr> promises := ps \<rparr>) = live s"
  "live (settle p v s) = live s"
  by (simp_all add: live_def)

lemma consistent_activeTasks [simp]:
  "consistent (s \<lparr> activeTasks := n \<rparr>) evs = consistent s evs"
  by (simp add: consistent_def live_def)

lemma consistent_processQueue:
  assumes "consistent s evs"
  shows "consistent (processQueue s) evs"
proof (cases "queue s")
  case Nil
  then show ?thesis using assms by (simp add: processQueue_def)
next
  case (Cons t rest)
  show ?thesis
  proof (cases "activeTasks s < concurrency s \<and> requestCount s < maxRequests s")
    case False
    then have "processQueue s = s" using Cons by (auto simp add: processQueue_def)
    then show ?thesis using assms by simp
  next
    case True
    let ?s' = "s \<lparr> queue := rest, activeTasks := activeTasks s + 1,
                   requestCount := requestCount s + 1,
                   executions := executions s @ [promise t],
                   awaiting := awaiting s @ [t] \<rparr>"
    have eq: "processQueue s = ?s'" using Cons True by (simp add: processQueue_def)
    have d: "distinct (map promise (t # rest @ awaiting s))"
      using assms Cons by (simp add: consistent_def live_def)
    have set_eq: "set (live ?s') = set (live s)"
      using Cons by (auto simp add: live_def)
    have notin: "promise t \<notin> promise ` set (awaiting s)" using d by auto
    have 1: "distinct (map promise (live ?s'))" using d by (auto simp add: live_def)
    have 5: "\<forall>p. count_list (executions ?s') p =
            length (outcomes p evs) + (if p \<in> promise ` set (awaiting ?s') then 1 else 0)"
      using assms notin by (auto simp add: consistent_def)
    show ?thesis
      unfolding eq consistent_def
      apply (intro conjI)
      subgoal by (rule 1)
      subgoal using assms unfolding set_eq by (simp add: consistent_def)
      subgoal using assms unfolding set_eq by (simp add: consistent_def)
      subgoal using assms by (simp add: consistent_def)
      subgoal by (rule 5)
      subgoal using assms by (simp add: consistent_def)
      done
  qed
qed

lemma consistent_addTask:
  assumes "consistent s evs"
  shows "consistent (snd (addTask task s)) (evs @ [AddTask task])"
proof -
  let ?w = "\<lparr> idT = idT task, priority = priority task, promise = length (promises s), retries = 0 \<rparr>"
  let ?s1 = "s \<lparr> promises := promises s @ [Pending], queue := sort_queue (queue s @ [?w]) \<rparr>"
  have fresh: "length (promises s) \<notin> promise ` set (live s)"
    using assms by (auto simp add: consistent_def)
  have new: "outcomes (length (promises s)) evs = []"
    using assms by (simp add: consistent_def)
  have set_live: "set (live ?s1) = insert ?w (set (live s))"
    by (auto simp add: live_def)
  have 1: "distinct (map promise (live ?s1))"
    using assms fresh by (auto simp add: consistent_def live_def)
  have 2: "\<forall>t \<in> set (live ?s1). promise t < length (promises ?s1) \<and>
         lifecycle (retryLimit ?s1) (outcomes (promise t) (evs @ [AddTask task])) = Live (retries t)"
    unfolding set_live using assms new by (auto simp add: consistent_def less_Suc_eq)
  have 3: "\<forall>p < length (promises ?s1).
         promises ?s1 ! p = future_of (lifecycle (retryLimit ?s1) (outcomes p (evs @ [AddTask task]))) \<and>
         ((\<exists>k. lifecycle (retryLimit ?s1) (outcomes p (evs @ [AddTask task])) = Live k)
            \<longrightarrow> p \<in> promise ` set (live ?s1))"
    unfolding set_live using assms new by (auto simp add: consistent_def less_Suc_eq nth_append)
  have 4: "\<forall>p. length (promises ?s1) \<le> p \<longrightarrow> outcomes p (evs @ [AddTask task]) = []"
    using assms by (simp add: consistent_def)
  have 5: "\<forall>p. count_list (executions ?s1) p =
            length (outcomes p (evs @ [AddTask task])) + (if p \<in> promise ` set (awaiting ?s1) then 1 else 0)"
    using assms by (simp add: consistent_def)
  have 6: "\<forall>p n. n < length (outcomes p (evs @ [AddTask task])) \<longrightarrow>
            (\<exists>k. lifecycle (retryLimit ?s1) (take n (outcomes p (evs @ [AddTask task]))) = Live k)"
    using assms by (simp add: consistent_def)
  have "consistent ?s1 (evs @ [AddTask task])"
    unfolding consistent_def using 1 2 3 4 5 6 by blast
  then show ?thesis
    unfolding addTask_def Let_def snd_conv by (rule consistent_processQueue)
qed

lemma consistent_tick:
  assumes "consistent s evs"
  shows "consistent (tick s) (evs @ [Tick])"
proof -
  have "consistent (s \<lparr> requestCount := 0 \<rparr>) (evs @ [Tick])"
    using assms by (simp add: consistent_def live_def)
  then show ?thesis unfolding tick_def by (rule consistent_processQueue)
qed

lemma consistent_settled:
  assumes c: "consistent s evs"
    and f: "find (\<lambda>t. promise t = p) (awaiting s) = Some task"
  shows "consistent (resume task r (s \<lparr> awaiting := remove1 task (awaiting s) \<rparr>)) (evs @ [Settled p r])"
proof -
  let ?s0 = "s \<lparr> awaiting := remove1 task (awaiting s) \<rparr>"
  let ?L = "retryLimit s"
  let ?evs = "evs @ [Settled p r]"
  from f have mem: "task \<in> set (awaiting s)" and p: "promise task = p"
    by (auto dest: find_Some_mem)
  from c have d: "distinct (map promise (queue s @ awaiting s))"
    by (simp add: consistent_def live_def)
  then have da: "distinct (awaiting s)" by (auto simp add: distinct_map)
  have rest: "set (remove1 task (awaiting s)) = set (awaiting s) - {task}"
    using da by simp
  have gone: "p \<notin> promise ` set (queue s @ remove1 task (awaiting s))"
    using d mem p rest by (auto simp add: distinct_map inj_on_def)
  from c mem p have lt: "p < length (promises s)"
    and lc: "lifecycle ?L (outcomes p evs) = Live (retries task)"
    by (auto simp add: consistent_def live_def)
  from c lt lc have pend: "promises s ! p = Pending"
    by (simp add: consistent_def)
  from c have cnt: "count_list (executions s) q =
      length (outcomes q evs) + (if q \<in> promise ` set (awaiting s) then 1 else 0)" for q
    by (simp add: consistent_def)
  have aw: "q \<in> promise ` set (remove1 task (awaiting s)) \<longleftrightarrow> q \<in> promise ` set (awaiting s) \<and> q \<noteq> p" for q
  proof (cases "q = p")
    case True
    then show ?thesis using gone by auto
  next
    case False
    then show ?thesis using rest p by auto
  qed
  have 5: "count_list (executions s) q =
      length (outcomes q ?evs) + (if q \<in> promise ` set (remove1 task (awaiting s)) then 1 else 0)" for q
    using cnt [of q] mem p by (auto simp add: aw)
  have 6: "n < length (outcomes q ?evs) \<Longrightarrow> \<exists>k. lifecycle ?L (take n (outcomes q ?evs)) = Live k" for q n
    using c lc by (auto simp add: consistent_def less_Suc_eq)
  have 4: "length (promises s) \<le> q \<Longrightarrow> outcomes q ?evs = []" for q
    using c lt by (auto simp add: consistent_def)
  have others: "q \<noteq> p \<Longrightarrow> outcomes q ?evs = outcomes q evs" for q by simp
  have dist0: "distinct (map promise (queue s @ remove1 task (awaiting s)))"
    using d by (auto simp add: distinct_map rest inj_on_def)
  have live0: "set (queue s @ remove1 task (awaiting s)) = set (queue s @ awaiting s) - {task}"
    using d mem rest by (auto simp add: distinct_map)
  have old2: "t \<in> set (queue s @ awaiting s) \<Longrightarrow> promise t < length (promises s) \<and>
         lifecycle ?L (outcomes (promise t) evs) = Live (retries t)" for t
    using c by (simp add: consistent_def live_def)
  have old3: "q < length (promises s) \<Longrightarrow>
         promises s ! q = future_of (lifecycle ?L (outcomes q evs)) \<and>
         ((\<exists>k. lifecycle ?L (outcomes q evs) = Live k) \<longrightarrow> q \<in> promise ` set (queue s @ awaiting s))" for q
    using c by (simp add: consistent_def live_def)
  have keep: "q \<noteq> p \<Longrightarrow> q \<in> promise ` set (queue s @ awaiting s) \<Longrightarrow>
       q \<in> promise ` set (queue s @ remove1 task (awaiting s))" for q
    using live0 p by auto
  have finished: "consistent (s \<lparr> awaiting := remove1 task (awaiting s),
        promises := (promises s)[p := f] \<rparr>) ?evs"
    if "lifecycle ?L (outcomes p ?evs) = Finished f" for f
    unfolding consistent_def live_def
    apply (intro conjI)
    subgoal using dist0 by simp
    subgoal using old2 live0 gone others by (auto simp add: image_iff) 
    subgoal using old3 keep that lt by (auto simp add: nth_list_update)
    subgoal using 4 by simp
    subgoal using 5 by simp
    subgoal using 6 by simp
    done
  have s_ok: "settle p (Fulfilled v) ?s0 = s \<lparr> awaiting := remove1 task (awaiting s),
        promises := (promises s)[p := Fulfilled v] \<rparr>" for v
    using lt pend by (simp add: settle_def)
  have s_rej: "settle p (Rejected v) ?s0 = s \<lparr> awaiting := remove1 task (awaiting s),
        promises := (promises s)[p := Rejected v] \<rparr>" for v
    using lt pend by (simp add: settle_def)
  have "consistent (case r of
                  Ok result \<Rightarrow> settle (promise task) (Fulfilled result) ?s0
                | Fail error \<Rightarrow>
                    if retries task < retryLimit ?s0
                    then ?s0 \<lparr> queue := queue ?s0 @ [task \<lparr> retries := retries task + 1 \<rparr>] \<rparr>
                    else settle (promise task) (Rejected error) ?s0) ?evs"
  proof (cases r)
    case (Ok v)
    have "lifecycle ?L (outcomes p ?evs) = Finished (Fulfilled v)" using lc Ok by simp
    from finished [OF this] show ?thesis using Ok p s_ok by simp
  next
    case (Fail e)
    show ?thesis
    proof (cases "retries task < ?L")
      case False
      have "lifecycle ?L (outcomes p ?evs) = Finished (Rejected e)" using lc Fail False by simp
      from finished [OF this] show ?thesis using Fail False p s_rej by simp
    next
      case True
      let ?t' = "task \<lparr> retries := retries task + 1 \<rparr>"
      have lc': "lifecycle ?L (outcomes p ?evs) = Live (retries task + 1)" using lc Fail True by simp
      have "consistent (s \<lparr> awaiting := remove1 task (awaiting s), queue := queue s @ [?t'] \<rparr>) ?evs"
        unfolding consistent_def live_def
        apply (intro conjI)
        subgoal using dist0 gone p by auto
        subgoal using old2 live0 gone others lc' lt p by (auto simp add: image_iff)
        subgoal using old3 keep lc' lc p by (auto simp add: image_iff)
        subgoal using 4 by simp
        subgoal using 5 by simp
        subgoal using 6 by simp
        done
      then show ?thesis using Fail True by simp
    qed
  qed
  then show ?thesis
    unfolding resume_def Let_def
    by (intro consistent_processQueue) simp
qed

lemma consistent_step:
  "step e s = Some s' \<Longrightarrow> consistent s pre \<Longrightarrow> consistent s' (pre @ [e])"
  by (auto simp add: step_def consistent_addTask consistent_tick consistent_settled
      split: event.splits if_splits option.splits)

lemma consistent_run:
  "run evs s = Some s' \<Longrightarrow> consistent s pre \<Longrightarrow> consistent s' (pre @ evs)"
proof (induction evs arbitrary: s pre)
  case Nil
  then show ?case by simp
next
  case (Cons e evs)
  from Cons.prems(1) obtain s1 where s1: "step e s = Some s1" and r: "run evs s1 = Some s'"
    by (auto split: option.splits)
  from consistent_step [OF s1 Cons.prems(2)] have "consistent s1 (pre @ [e])" .
  from Cons.IH [OF r this] show ?case by simp
qed

lemma consistent_constructor: "consistent (constructor options) []"
  by (simp add: consistent_def constructor_def live_def)

lemma consistent_reachable:
  "run evs (constructor options) = Some s \<Longrightarrow> consistent s evs"
  using consistent_run [OF _ consistent_constructor] by fastforce


text \<open>
  In terms of the scheduler's own retry limit (the field \<open>retryLimit\<close>, not negative): while
  all executions of a task fail, they never exceed \<open>retryLimit + 1\<close>; the future stays
  pending until the failure number \<open>retryLimit + 1\<close> and is rejected by it, with the reason
  of that last failure, after exactly \<open>retryLimit + 1\<close> calls of \<open>execute\<close>.
\<close>

lemma rejected_by_last_failure:
  assumes "run evs (constructor options) = Some s"
    and "p < length (promises s)"
    and "0 \<le> retryLimit s"
    and "outcomes p evs = map Fail es"
  shows "length es \<le> nat (retryLimit s) + 1 \<and>
         promises s ! p = (if length es = nat (retryLimit s) + 1 then Rejected (last es) else Pending) \<and>
         (length es = nat (retryLimit s) + 1 \<longrightarrow> count_list (executions s) p = nat (retryLimit s) + 1)"
proof -
  let ?L = "retryLimit s"
  from assms(1) have c: "consistent s evs" by (rule consistent_reachable)
  have bound: "length es \<le> nat ?L + 1"
  proof (rule ccontr)
    assume "\<not> length es \<le> nat ?L + 1"
    then have n: "nat ?L + 1 < length (outcomes p evs)" using assms(4) by simp
    from c have "\<forall>p n. n < length (outcomes p evs) \<longrightarrow>
            (\<exists>k. lifecycle ?L (take n (outcomes p evs)) = Live k)"
      by (simp add: consistent_def)
    with n obtain k where "lifecycle ?L (take (nat ?L + 1) (outcomes p evs)) = Live k"
      by blast
    moreover have "take (nat ?L + 1) (outcomes p evs) = map Fail (take (nat ?L) es @ [es ! nat ?L])"
      using n assms(4) by (simp add: take_Suc_conv_app_nth take_map)
    moreover have "lifecycle ?L (map Fail (take (nat ?L) es @ [es ! nat ?L])) = Finished (Rejected (es ! nat ?L))"
      using n assms(3,4) by (intro lifecycle_exhausted) simp_all
    ultimately show False by simp
  qed
  from c assms(2) have fut: "promises s ! p = future_of (lifecycle ?L (outcomes p evs))"
    by (simp add: consistent_def)
  show ?thesis
  proof (cases "length es = nat ?L + 1")
    case False
    with bound have "length es \<le> nat ?L" by simp
    from lifecycle_failures [OF assms(3) this] fut assms(4) False bound show ?thesis by simp
  next
    case True
    then have "es \<noteq> []" by auto
    then have split: "es = butlast es @ [last es]" by simp
    have "lifecycle ?L (map Fail (butlast es @ [last es])) = Finished (Rejected (last es))"
      using True assms(3) by (intro lifecycle_exhausted) simp_all
    with split have fin: "lifecycle ?L (outcomes p evs) = Finished (Rejected (last es))"
      using assms(4) by simp
    have "p \<notin> promise ` set (awaiting s)"
      using c fin by (auto simp add: consistent_def live_def)
    moreover from c have "count_list (executions s) p =
        length (outcomes p evs) + (if p \<in> promise ` set (awaiting s) then 1 else 0)"
      by (simp add: consistent_def)
    ultimately have "count_list (executions s) p = length es" using assms(4) by simp
    with True fut fin show ?thesis by simp
  qed
qed



section \<open>Every held task gets executed\<close>

text \<open>
  Whatever the thunks of the other tasks do, a queued task is brought to execution by the
  scheduler when the running executions settle and the timer fires: settling a running
  task lets \<open>finally\<close> and the loop start the head of the queue, and with nothing running
  a tick starts it. No submission is needed. The measure is twice the number of tasks
  queued ahead, plus the number of running tasks.
\<close>

lemma run_append:
  "run (a @ b) s = (case run a s of None \<Rightarrow> None | Some s1 \<Rightarrow> run b s1)"
  by (induction a arbitrary: s) (auto split: option.splits)

lemma run_trans:
  "run a s = Some s1 \<Longrightarrow> run b s1 = Some s2 \<Longrightarrow> run (a @ b) s = Some s2"
  by (simp add: run_append)

lemma agrees_append:
  "agrees th E (a @ b) \<longleftrightarrow> agrees th E a \<and> agrees th (E @ a) b"
  by (induction a arbitrary: E) auto

lemma resume_shape:
  "\<exists>s2. resume u r s = processQueue (processQueue s2) \<and> awaiting s2 = awaiting s \<and>
         (queue s2 = queue s \<or> (\<exists>u'. queue s2 = queue s @ [u']))"
  by (cases r) (auto simp add: resume_def Let_def)

lemma can_start:
  fixes s :: "'a AntiRateLimit"
  assumes "consistent s E" and "within_bounds s"
    and "0 < maxRequests s" and "0 < concurrency s" and "timers s \<noteq> []"
    and "queue s = pre @ t # post"
  shows "\<exists>evs' s'. run evs' s = Some s' \<and> t \<in> set (awaiting s') \<and>
           outcomes (promise t) evs' = [] \<and> agrees thunks E evs'"
  using assms
proof (induction "2 * length pre + length (awaiting s)" arbitrary: s E pre post rule: less_induct)
  case less
  note c = less.prems(1) and b = less.prems(2) and mr = less.prems(3) and cc = less.prems(4)
    and tm = less.prems(5) and q = less.prems(6)
  from c have d: "distinct (map promise (queue s @ awaiting s))"
    by (simp add: consistent_def live_def)
  have next_state: "\<exists>evs' s'. run evs' s = Some s' \<and> t \<in> set (awaiting s') \<and>
           outcomes (promise t) evs' = [] \<and> agrees thunks E evs'"
    if st: "step e s = Some s1" and oe: "outcomes (promise t) [e] = []"
      and ag: "agrees thunks E [e]"
      and cases: "t \<in> set (awaiting s1) \<or>
        (\<exists>pre1 post1. queue s1 = pre1 @ t # post1 \<and>
           2 * length pre1 + length (awaiting s1) < 2 * length pre + length (awaiting s))"
    for e s1
  proof -
    from cases show ?thesis
    proof
      assume "t \<in> set (awaiting s1)"
      with st oe ag have "run [e] s = Some s1 \<and> t \<in> set (awaiting s1) \<and>
          outcomes (promise t) [e] = [] \<and> agrees thunks E [e]"
        by simp
      then show ?thesis by blast
    next
      assume "\<exists>pre1 post1. queue s1 = pre1 @ t # post1 \<and>
           2 * length pre1 + length (awaiting s1) < 2 * length pre + length (awaiting s)"
      then obtain pre1 post1 where q1: "queue s1 = pre1 @ t # post1"
        and m: "2 * length pre1 + length (awaiting s1) < 2 * length pre + length (awaiting s)"
        by blast
      have c1: "consistent s1 (E @ [e])" using st c by (rule consistent_step)
      have b1: "within_bounds s1" using b st by (rule within_bounds_step)
      from step_config [OF st] mr cc tm
      have cfg: "0 < maxRequests s1" "0 < concurrency s1" "timers s1 \<noteq> []" by simp_all
      from less.hyps [OF m c1 b1 cfg q1]
      obtain evs' s' where r: "run evs' s1 = Some s'" and a: "t \<in> set (awaiting s')"
        and o: "outcomes (promise t) evs' = []" and ag': "agrees thunks (E @ [e]) evs'" by blast
      have "run (e # evs') s = Some s'" using st r by simp
      moreover have "outcomes (promise t) (e # evs') = []"
        using oe o outcomes_append [of "promise t" "[e]" evs'] by simp
      moreover have "agrees thunks E (e # evs')" using ag ag' by simp
      ultimately show ?thesis using a by blast
    qed
  qed
  show ?case
  proof (cases "awaiting s")
    case Nil
    with b have act: "activeTasks s = 0" by (simp add: within_bounds_def)
    have st: "step Tick s = Some (tick s)" using tm by (simp add: step_def)
    have tk: "queue (tick s) = tl (pre @ t # post)" "awaiting (tick s) = [hd (pre @ t # post)]"
      using q act cc mr Nil by (auto simp add: tick_def processQueue_def split: list.splits)
    show ?thesis
    proof (rule next_state [OF st])
      show "outcomes (promise t) [Tick] = []" by simp
      show "agrees thunks E [Tick]" by simp
      show "t \<in> set (awaiting (tick s)) \<or>
        (\<exists>pre1 post1. queue (tick s) = pre1 @ t # post1 \<and>
           2 * length pre1 + length (awaiting (tick s)) < 2 * length pre + length (awaiting s))"
      proof (cases pre)
        case Nil
        then show ?thesis using tk by simp
      next
        case (Cons a pre')
        then have "queue (tick s) = pre' @ t # post \<and>
           2 * length pre' + length (awaiting (tick s)) < 2 * length pre + length (awaiting s)"
          using tk by simp
        then show ?thesis by blast
      qed
    qed
  next
    case (Cons u us)
    let ?r = "thunks (promise u) (length (outcomes (promise u) E))"
    let ?e = "Settled (promise u) ?r"
    let ?s0 = "s \<lparr> awaiting := us \<rparr>"
    from resume_shape [of u ?r ?s0] obtain s2 where
      res: "resume u ?r ?s0 = processQueue (processQueue s2)"
      and aw2: "awaiting s2 = us"
      and q2: "queue s2 = queue s \<or> (\<exists>u'. queue s2 = queue s @ [u'])"
      by auto
    from q2 q obtain post2 where q2': "queue s2 = pre @ t # post2" by auto
    let ?k = "min 2 (headroom s2)"
    have st: "step ?e s = Some (admit ?k s2)"
      using Cons res by (simp add: step_def processQueue_twice)
    have ne: "promise u \<noteq> promise t" using d q Cons by auto
    have k: "?k \<le> length (pre @ t # post2)"
      using headroom_le_queue [of s2] q2' by simp
    have qs: "queue (admit ?k s2) = drop ?k (pre @ t # post2)"
      and aw: "awaiting (admit ?k s2) = us @ take ?k (pre @ t # post2)"
      using q2' aw2 by (simp_all add: admit_def)
    show ?thesis
    proof (rule next_state [OF st])
      show "outcomes (promise t) [?e] = []" using ne by simp
      show "agrees thunks E [?e]" by simp
      show "t \<in> set (awaiting (admit ?k s2)) \<or>
        (\<exists>pre1 post1. queue (admit ?k s2) = pre1 @ t # post1 \<and>
           2 * length pre1 + length (awaiting (admit ?k s2))
             < 2 * length pre + length (awaiting s))"
      proof (cases "?k \<le> length pre")
        case False
        then have "t \<in> set (take ?k (pre @ t # post2))"
          by (auto simp add: not_le take_Cons' simp del: min.absorb_iff2)
        then show ?thesis unfolding aw by simp
      next
        case True
        then have "queue (admit ?k s2) = drop ?k pre @ t # post2" unfolding qs by simp
        moreover have "2 * length (drop ?k pre) + length (awaiting (admit ?k s2))
             < 2 * length pre + length (awaiting s)"
          unfolding aw using True Cons by simp
        ultimately show ?thesis by blast
      qed
    qed
  qed
qed

lemma can_execute:
  fixes s :: "'a AntiRateLimit"
  assumes "consistent s E" and "within_bounds s"
    and "0 < maxRequests s" and "0 < concurrency s" and "timers s \<noteq> []"
    and "p \<in> promise ` set (live s)"
  shows "\<exists>evs' s'. run evs' s = Some s' \<and> p \<in> promise ` set (awaiting s') \<and>
           outcomes p evs' = [] \<and> agrees thunks E evs'"
proof (cases "p \<in> promise ` set (awaiting s)")
  case True
  then have "run [] s = Some s \<and> p \<in> promise ` set (awaiting s) \<and> outcomes p [] = [] \<and>
      agrees thunks E []"
    by simp
  then show ?thesis by blast
next
  case False
  with assms(6) obtain t where t: "t \<in> set (queue s)" "promise t = p"
    by (auto simp add: live_def)
  then obtain pre post where "queue s = pre @ t # post" by (auto dest: split_list)
  from can_start [OF assms(1-5) this, of thunks] t(2) show ?thesis by blast
qed

lemma can_settle:
  assumes "p \<in> promise ` set (awaiting s)"
  shows "\<exists>s'. step (Settled p r) s = Some s'"
proof -
  from assms have "find (\<lambda>t. promise t = p) (awaiting s) \<noteq> None"
    by (auto simp add: find_None_iff)
  then show ?thesis by (auto simp add: step_def)
qed

text \<open>
  Hence any course of outcomes of a task during which the task stays alive is delivered
  by some continuation of the run, agreeing with the thunks of all tasks: after every
  failure that leaves the task alive, \<open>execute\<close> is called for it again.
\<close>

lemma can_deliver:
  fixes s :: "'a AntiRateLimit"
  assumes "consistent s E" and "within_bounds s"
    and "0 < maxRequests s" and "0 < concurrency s" and "timers s \<noteq> []"
    and "p < length (promises s)"
    and "\<forall>n < length os. \<exists>k. lifecycle (retryLimit s) (outcomes p E @ take n os) = Live k"
    and "\<forall>i < length os. thunks p (length (outcomes p E) + i) = os ! i"
  shows "\<exists>evs' s'. run evs' s = Some s' \<and> outcomes p evs' = os \<and> agrees thunks E evs'"
  using assms
proof (induction os arbitrary: s E)
  case Nil
  have "run [] s = Some s \<and> outcomes p [] = [] \<and> agrees thunks E []" by simp
  then show ?case by blast
next
  case (Cons r os)
  from Cons.prems(7) obtain k where "lifecycle (retryLimit s) (outcomes p E) = Live k"
    by fastforce
  with Cons.prems(1,6) have held: "p \<in> promise ` set (live s)"
    by (simp add: consistent_def)
  from can_execute [OF Cons.prems(1-5) held, of thunks]
  obtain evs1 s1 where r1: "run evs1 s = Some s1" and a1: "p \<in> promise ` set (awaiting s1)"
    and o1: "outcomes p evs1 = []" and g1: "agrees thunks E evs1" by blast
  from can_settle [OF a1] obtain s2 where st: "step (Settled p r) s1 = Some s2" by blast
  let ?evs2 = "evs1 @ [Settled p r]"
  have r2: "run ?evs2 s = Some s2" using r1 st by (simp add: run_append)
  have c2: "consistent s2 (E @ ?evs2)" using r2 Cons.prems(1) by (rule consistent_run)
  have b2: "within_bounds s2" using r2 Cons.prems(2) by (rule within_bounds_run)
  from run_config [OF r2] Cons.prems(3-5)
  have cfg: "0 < maxRequests s2" "0 < concurrency s2" "timers s2 \<noteq> []"
    and L: "retryLimit s2 = retryLimit s" by simp_all
  have o2: "outcomes p (E @ ?evs2) = outcomes p E @ [r]"
    using o1 by (simp add: outcomes_append)
  have r: "thunks p (length (outcomes p E)) = r" using Cons.prems(8) by fastforce
  have g2: "agrees thunks E ?evs2"
    using g1 o1 r by (simp add: agrees_append outcomes_append)
  have lt: "p < length (promises s2)"
  proof (rule ccontr)
    assume "\<not> p < length (promises s2)"
    with c2 have "outcomes p (E @ ?evs2) = []" by (simp add: consistent_def)
    with o2 show False by simp
  qed
  have live2: "\<forall>n < length os. \<exists>k. lifecycle (retryLimit s2) (outcomes p (E @ ?evs2) @ take n os) = Live k"
  proof (intro allI impI)
    fix n assume "n < length os"
    then have "Suc n < length (r # os)" by simp
    with Cons.prems(7) obtain k where
      "lifecycle (retryLimit s) (outcomes p E @ take (Suc n) (r # os)) = Live k" by blast
    then show "\<exists>k. lifecycle (retryLimit s2) (outcomes p (E @ ?evs2) @ take n os) = Live k"
      unfolding o2 L by simp
  qed
  have th2: "\<forall>i < length os. thunks p (length (outcomes p (E @ ?evs2)) + i) = os ! i"
  proof (intro allI impI)
    fix i assume "i < length os"
    then have "Suc i < length (r # os)" by simp
    with Cons.prems(8) have "thunks p (length (outcomes p E) + Suc i) = (r # os) ! Suc i" by blast
    then show "thunks p (length (outcomes p (E @ ?evs2)) + i) = os ! i"
      unfolding o2 by simp
  qed
  from Cons.IH [OF c2 b2 cfg lt live2 th2]
  obtain evs3 s3 where r3: "run evs3 s2 = Some s3"
    and o3: "outcomes p evs3 = os" and g3: "agrees thunks (E @ ?evs2) evs3" by blast
  have "run (?evs2 @ evs3) s = Some s3" using r2 r3 by (rule run_trans)
  moreover have "outcomes p (?evs2 @ evs3) = r # os"
    using o1 o3 by (simp add: outcomes_append)
  moreover have "agrees thunks E (?evs2 @ evs3)"
    using g2 g3 by (simp only: agrees_append)
  ultimately show ?case by blast
qed

section \<open>Retries until success\<close>







text \<open>
  Likewise for a thunk that always fails, in terms of the scheduler's own retry limit: the
  task submitted in any reachable state is executed \<open>retryLimit + 1\<close> times and rejected
  with the last reason.
\<close>

lemma always_failing_task_gets_rejected:
  fixes s :: "'a AntiRateLimit"
  assumes "run evs (constructor options) = Some s"
    and "0 < maxRequests_opt options"
    and "\<forall>c. concurrency_opt options = Some c \<longrightarrow> 0 \<le> c"
    and "0 \<le> retryLimit s"
    and "length es = nat (retryLimit s) + 1"
    and "map (thunks (fst (addTask task s))) [0..<length es] = map Fail es"
  shows "\<exists>evs' s'. run evs' (snd (addTask task s)) = Some s' \<and>
            agrees thunks (evs @ [AddTask task]) evs' \<and>
            outcomes (fst (addTask task s)) evs' = map Fail es \<and>
            promises s' ! fst (addTask task s) = Rejected (last es) \<and>
            count_list (executions s') (fst (addTask task s)) = nat (retryLimit s) + 1"
proof -
  let ?p = "fst (addTask task s)"
  let ?s1 = "snd (addTask task s)"
  let ?E = "evs @ [AddTask task]"
  let ?os = "map Fail es"
  have p: "?p = length (promises s)" by (simp add: addTask_def Let_def)
  have r1: "run ?E (constructor options) = Some ?s1"
    using assms(1) by (simp add: run_append step_def)
  then have c1: "consistent ?s1 ?E" by (rule consistent_reachable)
  have "within_bounds (constructor options :: 'a AntiRateLimit)"
    using assms(2,3)
    by (cases "concurrency_opt options") (simp_all add: within_bounds_def constructor_def js_or_def)
  from within_bounds_run [OF r1 this] have b1: "within_bounds ?s1" .
  from run_config [OF r1] run_config [OF assms(1)] assms(2,3)
  have cfg: "0 < maxRequests ?s1" "0 < concurrency ?s1" "timers ?s1 \<noteq> []"
    and L: "retryLimit ?s1 = retryLimit s"
    by (cases "concurrency_opt options"; simp add: constructor_def js_or_def)+
  from consistent_reachable [OF assms(1)] have "outcomes ?p evs = []"
    unfolding p by (simp add: consistent_def)
  then have o: "outcomes ?p ?E = []" by simp
  have lt: "?p < length (promises ?s1)" by (simp add: addTask_def Let_def)
  have live: "\<forall>n < length ?os. \<exists>k. lifecycle (retryLimit ?s1) (outcomes ?p ?E @ take n ?os) = Live k"
  proof (intro allI impI)
    fix n assume "n < length ?os"
    then have n: "n \<le> nat (retryLimit s)" using assms(5) by simp
    have "take n ?os = map Fail (take n es)" by (simp add: take_map)
    moreover have "lifecycle (retryLimit ?s1) (map Fail (take n es)) = Live (int (length (take n es)))"
      unfolding L using assms(4,5) n by (intro lifecycle_failures) simp_all
    ultimately show "\<exists>k. lifecycle (retryLimit ?s1) (outcomes ?p ?E @ take n ?os) = Live k"
      using o by simp
  qed
  have th: "\<forall>i < length ?os. thunks ?p (length (outcomes ?p ?E) + i) = ?os ! i"
  proof (intro allI impI)
    fix i assume i: "i < length ?os"
    then have "map (thunks ?p) [0..<length es] ! i = map Fail es ! i"
      using assms(6) by simp
    with i show "thunks ?p (length (outcomes ?p ?E) + i) = ?os ! i" using o by simp
  qed
  from can_deliver [where s = ?s1 and E = ?E and p = ?p and os = ?os and thunks = thunks,
      OF c1 b1 cfg lt live th]
  obtain evs' s' where r': "run evs' ?s1 = Some s'"
    and o': "outcomes ?p evs' = ?os" and g': "agrees thunks ?E evs'" by blast
  have r: "run (?E @ evs') (constructor options) = Some s'"
    using r1 r' by (rule run_trans)
  have os: "outcomes ?p (?E @ evs') = ?os"
    using o o' outcomes_append [of ?p ?E evs'] by simp
  from run_config [OF r'] L have L': "retryLimit s' = retryLimit s" by simp
  have lt': "?p < length (promises s')"
  proof (rule ccontr)
    assume "\<not> ?p < length (promises s')"
    with consistent_reachable [OF r] have "outcomes ?p (?E @ evs') = []"
      by (simp add: consistent_def)
    with os assms(5) show False by simp
  qed
  from rejected_by_last_failure [OF r lt' _ os] assms(4,5) L'
  have "promises s' ! ?p = Rejected (last es) \<and>
        count_list (executions s') ?p = nat (retryLimit s) + 1" by simp
  with r' o' g' show ?thesis by blast
qed

section \<open>The retry limit given as zero\<close>

text \<open>
  Claim C1 says that a scheduler constructed with \<open>retryLimit = 0\<close> never retries. The
  constructor reads the option with \<open>options.retryLimit || 3\<close>, which replaces \<open>0\<close> by the
  default: the scheduler constructed with \<open>retryLimit = 0\<close> has the retry limit 3. After
  the first failure of its thunk the task is executed again and its future is still
  pending; the future is rejected by the fourth failure, after four executions.
\<close>

theorem zero_retryLimit_still_retries:
  "retryLimit (constructor zero_retry_options :: string AntiRateLimit) = 3 \<and>
   run [AddTask task_A, Settled 0 (Fail ''e1'')] (constructor zero_retry_options)
     = Some \<lparr> maxRequests = 10, interval = 1000, concurrency = 1, retryLimit = 3,
              queue = [], activeTasks = 1, requestCount = 2,
              awaiting = [\<lparr> idT = ''A'', priority = Some 10, promise = 0, retries = 1 \<rparr>],
              promises = [Pending], executions = [0, 0], timers = [1000] \<rparr> \<and>
   run [AddTask task_A, Settled 0 (Fail ''e1''), Settled 0 (Fail ''e2''),
        Settled 0 (Fail ''e3''), Settled 0 (Fail ''e4'')] (constructor zero_retry_options)
     = Some \<lparr> maxRequests = 10, interval = 1000, concurrency = 1, retryLimit = 3,
              queue = [], activeTasks = 0, requestCount = 4, awaiting = [],
              promises = [Rejected ''e4''], executions = [0, 0, 0, 0], timers = [1000] \<rparr>"
  by (simp add: zero_retry_options_def task_A_def model_defs)

text \<open>
  Claim C5 says that a task whose thunk always fails is rejected after exactly
  \<open>retryLimit + 1\<close> executions. For the scheduler constructed with \<open>retryLimit = 0\<close> that is
  one execution; but the future is still pending after the first, the second and the third
  failure, and it is rejected by the fourth failure, with the reason of that one, after
  four executions. This is the defect of claim C1 again (\<open>0 || 3\<close> is 3).
\<close>

theorem zero_retryLimit_rejected_after_four:
  "configured_retryLimit zero_retry_options = 0 \<and>
   map_option (\<lambda>s. (promises s ! 0, count_list (executions s) 0))
     (run [AddTask (job ''x''), Settled 0 (Fail ''r1'')] (constructor zero_retry_options))
     = Some (Pending, 2) \<and>
   map_option (\<lambda>s. (promises s ! 0, count_list (executions s) 0))
     (run [AddTask (job ''x''), Settled 0 (Fail ''r1''), Settled 0 (Fail ''r2'')]
        (constructor zero_retry_options))
     = Some (Pending, 3) \<and>
   map_option (\<lambda>s. (promises s ! 0, count_list (executions s) 0))
     (run [AddTask (job ''x''), Settled 0 (Fail ''r1''), Settled 0 (Fail ''r2''),
           Settled 0 (Fail ''r3'')] (constructor zero_retry_options))
     = Some (Pending, 4) \<and>
   map_option (\<lambda>s. (promises s ! 0, count_list (executions s) 0))
     (run [AddTask (job ''x''), Settled 0 (Fail ''r1''), Settled 0 (Fail ''r2''),
           Settled 0 (Fail ''r3''), Settled 0 (Fail ''r4'')] (constructor zero_retry_options))
     = Some (Rejected ''r4'', 4)"
  by (simp add: configured_retryLimit_def zero_retry_options_def job_def model_defs)

section \<open>The order in which tasks are dequeued\<close>

lemma compareFn_prio: "compareFn a b \<le> 0 \<longleftrightarrow> prio b \<le> prio a"
  by (simp add: compareFn_def prio_def)

lemma precedes_trans: "precedes a b \<Longrightarrow> precedes b c \<Longrightarrow> precedes a c"
  by (auto simp add: precedes_def)

lemma sorted_insert_task:
  assumes "sorted_wrt precedes R"
    and "\<forall>b \<in> set R. prio b = prio a \<longrightarrow> promise a < promise b"
  shows "sorted_wrt precedes (insert_task a R)"
  using assms
proof (induction R)
  case Nil
  then show ?case by simp
next
  case (Cons b bs)
  show ?case
  proof (cases "prio b \<le> prio a")
    case True
    have "precedes a x" if "x \<in> set (b # bs)" for x
    proof -
      from that Cons.prems(1) have "x = b \<or> precedes b x" by auto
      then have "prio x \<le> prio b" by (auto simp add: precedes_def)
      with True Cons.prems(2) that show ?thesis by (auto simp add: precedes_def)
    qed
    with True Cons.prems(1) show ?thesis by (simp add: compareFn_prio)
  next
    case False
    then have "precedes b a" by (simp add: precedes_def)
    moreover have "sorted_wrt precedes (insert_task a bs)"
      using Cons by simp
    ultimately show ?thesis using False Cons.prems(1) by (auto simp add: compareFn_prio)
  qed
qed

lemma sort_queue_snoc: "sort_queue (q @ [w]) = foldr insert_task q [w]"
  by (simp add: sort_queue_def)

lemma set_foldr_insert_task [simp]: "set (foldr insert_task q R) = set q \<union> set R"
  by (induction q) auto

lemma sorted_sort_queue_snoc:
  assumes "sorted_wrt precedes q" and "\<forall>t \<in> set q. promise t < promise w"
  shows "sorted_wrt precedes (sort_queue (q @ [w]))"
  unfolding sort_queue_snoc using assms
proof (induction q)
  case Nil
  then show ?case by simp
next
  case (Cons a q)
  have "sorted_wrt precedes (foldr insert_task q [w])" using Cons by simp
  moreover have "\<forall>b \<in> set (foldr insert_task q [w]). prio b = prio a \<longrightarrow> promise a < promise b"
    using Cons.prems by (auto simp add: precedes_def)
  ultimately show ?case by (simp add: sorted_insert_task)
qed

lemma in_order_processQueue: "in_order s \<Longrightarrow> in_order (processQueue s)"
  by (auto simp add: in_order_def processQueue_def split: list.split)

lemma in_order_step:
  assumes "step e s = Some s'" and "no_failure e" and "in_order s"
  shows "in_order s'"
proof (cases e)
  case (AddTask task)
  let ?w = "\<lparr> idT = idT task, priority = priority task, promise = length (promises s), retries = 0 \<rparr>"
  have "sorted_wrt precedes (sort_queue (queue s @ [?w]))"
    using assms(3) by (intro sorted_sort_queue_snoc) (simp_all add: in_order_def)
  then have "in_order (s \<lparr> promises := promises s @ [Pending], queue := sort_queue (queue s @ [?w]) \<rparr>)"
    using assms(3) by (auto simp add: in_order_def less_Suc_eq)
  then show ?thesis using assms(1) AddTask
    by (auto simp add: step_def addTask_def Let_def in_order_processQueue)
next
  case Tick
  have "in_order (s \<lparr> requestCount := 0 \<rparr>)" using assms(3) by (simp add: in_order_def)
  then show ?thesis using assms(1) Tick
    by (auto simp add: step_def tick_def in_order_processQueue split: if_splits)
next
  case (Settled p r)
  with assms(2) obtain v where r: "r = Ok v" by (cases r) auto
  from assms(1) Settled obtain task where
    s': "s' = resume task r (s \<lparr> awaiting := remove1 task (awaiting s) \<rparr>)"
    by (auto simp add: step_def split: option.splits)
  have "in_order (settle (promise task) (Fulfilled v) (s \<lparr> awaiting := remove1 task (awaiting s) \<rparr>)
           \<lparr> activeTasks := activeTasks s - 1 \<rparr>)"
    using assms(3) by (simp add: in_order_def)
  then show ?thesis unfolding s' r resume_def Let_def
    by (simp add: in_order_processQueue)
qed

lemma in_order_run:
  "run evs s = Some s' \<Longrightarrow> list_all no_failure evs \<Longrightarrow> in_order s \<Longrightarrow> in_order s'"
proof (induction evs arbitrary: s)
  case Nil
  then show ?case by simp
next
  case (Cons e evs)
  from Cons.prems(1) obtain s1 where s1: "step e s = Some s1" and r: "run evs s1 = Some s'"
    by (auto split: option.splits)
  from in_order_step [OF s1] Cons.prems have "in_order s1" by simp
  from Cons.IH [OF r _ this] Cons.prems(2) show ?case by simp
qed

text \<open>
  As long as no execution has failed, the queue is in order: its head, the task that
  \<open>processQueue\<close> dequeues, has the highest priority of the queue and is the earliest
  submitted among the tasks of that priority.
\<close>

lemma head_maximal_without_retries:
  assumes "run evs (constructor options) = Some s"
    and "list_all no_failure evs"
    and "queue s = t # rest"
  shows "\<forall>u \<in> set rest. prio u < prio t \<or> (prio u = prio t \<and> promise t < promise u)"
proof -
  have "in_order (constructor options)" by (simp add: in_order_def constructor_def)
  from in_order_run [OF assms(1,2) this] assms(3) show ?thesis
    by (auto simp add: in_order_def precedes_def)
qed

text \<open>
  Claim C2 says that a failed task is put back into the priority order as if it were
  freshly submitted. \<open>addTask\<close> pushes and sorts; the retry path only pushes. With a gate
  of one, A (priority 10) is running while B and C (priority 1) are queued. A fails and is
  pushed behind C without a sort, and the call of \<open>processQueue\<close> that follows starts B:
  the queue is then C, A, where a fresh submission of A would have put A first.
\<close>

theorem retried_task_goes_to_tail:
  "run [AddTask task_A, AddTask task_B, AddTask task_C, Settled 0 (Fail ''e1'')]
       (constructor two_retry_options)
     = Some \<lparr> maxRequests = 10, interval = 1000, concurrency = 1, retryLimit = 2,
              queue = [\<lparr> idT = ''C'', priority = Some 1, promise = 2, retries = 0 \<rparr>,
                       \<lparr> idT = ''A'', priority = Some 10, promise = 0, retries = 1 \<rparr>],
              activeTasks = 1, requestCount = 2,
              awaiting = [\<lparr> idT = ''B'', priority = Some 1, promise = 1, retries = 0 \<rparr>],
              promises = [Pending, Pending, Pending :: string future],
              executions = [0, 1], timers = [1000] \<rparr> \<and>
   sort_queue [\<lparr> idT = ''B'', priority = Some 1, promise = 1, retries = 0 \<rparr>,
               \<lparr> idT = ''C'', priority = Some 1, promise = 2, retries = 0 \<rparr>,
               \<lparr> idT = ''A'', priority = Some 10, promise = 0, retries = 1 \<rparr>]
     = [\<lparr> idT = ''A'', priority = Some 10, promise = 0, retries = 1 \<rparr>,
        \<lparr> idT = ''B'', priority = Some 1, promise = 1, retries = 0 \<rparr>,
        \<lparr> idT = ''C'', priority = Some 1, promise = 2, retries = 0 \<rparr>]"
  by (simp add: two_retry_options_def task_A_def task_B_def task_C_def model_defs)

text \<open>
  Claim C4 says that the task dequeued is always maximal in priority. In the run above,
  continued by the completion of B, the queue holds C (priority 1) and the retried A
  (priority 10) when B completes, and \<open>processQueue\<close> dequeues C: A stays queued.
\<close>

theorem retried_task_overtaken:
  "run [AddTask task_A, AddTask task_B, AddTask task_C, Settled 0 (Fail ''e1''),
        Settled 1 (Ok ''v'')] (constructor two_retry_options)
     = Some \<lparr> maxRequests = 10, interval = 1000, concurrency = 1, retryLimit = 2,
              queue = [\<lparr> idT = ''A'', priority = Some 10, promise = 0, retries = 1 \<rparr>],
              activeTasks = 1, requestCount = 3,
              awaiting = [\<lparr> idT = ''C'', priority = Some 1, promise = 2, retries = 0 \<rparr>],
              promises = [Pending, Fulfilled ''v'', Pending],
              executions = [0, 1, 2], timers = [1000] \<rparr>"
  by (simp add: two_retry_options_def task_A_def task_B_def task_C_def model_defs)

section \<open>Repeated invocations of the scheduling pass\<close>

lemma distinct_live_processQueue:
  assumes "distinct (map promise (live s))"
  shows "distinct (map promise (live (processQueue s)))"
proof (cases "queue s")
  case Nil
  then show ?thesis using assms by (simp add: processQueue_def)
next
  case (Cons t rest)
  then show ?thesis using assms by (auto simp add: processQueue_def live_def)
qed

lemma distinct_live_settled:
  assumes d: "distinct (map promise (live s))"
    and f: "find (\<lambda>t. promise t = p) (awaiting s) = Some task"
  shows "distinct (map promise (live (resume task r (s \<lparr> awaiting := remove1 task (awaiting s) \<rparr>))))"
proof -
  let ?s0 = "s \<lparr> awaiting := remove1 task (awaiting s) \<rparr>"
  from f have mem: "task \<in> set (awaiting s)" by (auto dest: find_Some_mem)
  from d have da: "distinct (awaiting s)" by (auto simp add: live_def distinct_map)
  then have rest: "set (remove1 task (awaiting s)) = set (awaiting s) - {task}" by simp
  have d0: "distinct (map promise (queue s @ remove1 task (awaiting s)))"
    using d by (auto simp add: live_def distinct_map rest inj_on_def)
  have gone: "promise task \<notin> promise ` set (queue s @ remove1 task (awaiting s))"
    using d mem rest by (auto simp add: live_def distinct_map inj_on_def)
  have "distinct (map promise (live (case r of
                  Ok result \<Rightarrow> settle (promise task) (Fulfilled result) ?s0
                | Fail error \<Rightarrow>
                    if retries task < retryLimit ?s0
                    then ?s0 \<lparr> queue := queue ?s0 @ [task \<lparr> retries := retries task + 1 \<rparr>] \<rparr>
                    else settle (promise task) (Rejected error) ?s0)))"
    using d0 gone by (cases r) (auto simp add: live_def)
  then show ?thesis
    unfolding resume_def Let_def
    by (intro distinct_live_processQueue) simp
qed

lemma trigger_started:
  assumes "fire t s = Some s'"
  shows "length (executions s) \<le> length (executions s')"
    and "requestCount s' - requestCount s
           = int (length (executions s')) - int (length (executions s))"
proof -
  have "length (executions s) \<le> length (executions s') \<and>
        requestCount s' - requestCount s
           = int (length (executions s')) - int (length (executions s))"
  proof (cases t)
    case Invoke
    with assms have "s' = processQueue s" by simp
    then show ?thesis using processQueue_started [of s] by simp
  next
    case (Completion p r)
    with assms have st: "step (Settled p r) s = Some s'" by simp
    then obtain task where
      s': "s' = resume task r (s \<lparr> awaiting := remove1 task (awaiting s) \<rparr>)"
      by (auto simp add: step_def split: option.splits)
    define s2 where "s2 = (let s0 = s \<lparr> awaiting := remove1 task (awaiting s) \<rparr>; s1 = (case r of
                  Ok result \<Rightarrow> settle (promise task) (Fulfilled result) s0
                | Fail error \<Rightarrow>
                    if retries task < retryLimit s0
                    then s0 \<lparr> queue := queue s0 @ [task \<lparr> retries := retries task + 1 \<rparr>] \<rparr>
                    else settle (promise task) (Rejected error) s0) in s1 \<lparr> activeTasks := activeTasks s1 - 1 \<rparr>)"
    have "s' = processQueue (processQueue s2)"
      by (simp add: s' s2_def resume_def Let_def)
    moreover have "requestCount s2 = requestCount s" "executions s2 = executions s"
      by (simp_all add: s2_def Let_def split: outcome.split)
    ultimately show ?thesis
      using processQueue_twice_started [of s2] by simp
  qed
  then show "length (executions s) \<le> length (executions s')"
    and "requestCount s' - requestCount s
           = int (length (executions s')) - int (length (executions s))" by simp_all
qed

lemma trigger_invariants:
  assumes "fire t s = Some s'" and "within_bounds s" and "distinct (map promise (live s))"
  shows "within_bounds s'" and "distinct (map promise (live s'))"
    and "maxRequests s' = maxRequests s" and "concurrency s' = concurrency s"
proof -
  show "within_bounds s'"
    using assms(1,2) by (cases t) (auto simp add: within_bounds_processQueue within_bounds_step)
  show "distinct (map promise (live s'))"
    using assms(1,3)
    by (cases t) (auto simp add: distinct_live_processQueue distinct_live_settled step_def
        split: option.splits)
  show "maxRequests s' = maxRequests s" "concurrency s' = concurrency s"
    using assms(1) by (cases t; auto dest: step_config)+
qed

lemma triggers_invariants:
  assumes "fire_all ts s = Some s'" and "within_bounds s" and "distinct (map promise (live s))"
  shows "within_bounds s' \<and> distinct (map promise (live s')) \<and>
         maxRequests s' = maxRequests s \<and> concurrency s' = concurrency s \<and>
         length (executions s) \<le> length (executions s') \<and>
         requestCount s' - requestCount s
           = int (length (executions s')) - int (length (executions s))"
  using assms
proof (induction ts arbitrary: s)
  case Nil
  then show ?case by simp
next
  case (Cons t ts)
  from Cons.prems(1) obtain s1 where t: "fire t s = Some s1" and r: "fire_all ts s1 = Some s'"
    by (auto split: option.splits)
  note inv = trigger_invariants [OF t Cons.prems(2,3)]
  from Cons.IH [OF r inv(1,2)] inv(3,4) trigger_started [OF t]
  show ?case by simp
qed

text \<open>
  Claim C8, amended. The scheduling pass may be invoked again and again, by direct calls
  and from the continuations of executions that complete or fail (a thunk that throws at
  once included), with no submission and no reset of the window in between: no task is
  ever held twice, so none is dequeued twice; \<open>activeTasks\<close> never passes \<open>concurrency\<close> and
  \<open>requestCount\<close> never passes \<open>maxRequests\<close>; together the invocations dequeue no more
  tasks than the headroom of the window, \<open>maxRequests - requestCount\<close>, allows; and a state
  without headroom is left as it is, however often \<open>processQueue\<close> is invoked. The pass is
  not idempotent: while headroom remains, a further invocation may dequeue further tasks.
\<close>

theorem reinvocation_safe:
  assumes "within_bounds s" and "distinct (map promise (live s))"
    and "fire_all ts s = Some s'"
  shows "0 \<le> activeTasks s' \<and> activeTasks s' \<le> concurrency s \<and>
         0 \<le> requestCount s' \<and> requestCount s' \<le> maxRequests s \<and>
         distinct (map promise (queue s' @ awaiting s')) \<and>
         int (length (executions s')) - int (length (executions s))
           \<le> maxRequests s - requestCount s \<and>
         (headroom s = 0 \<longrightarrow> (processQueue ^^ n) s = s)"
proof -
  from triggers_invariants [OF assms(3,1,2)]
  have b: "within_bounds s'" and d: "distinct (map promise (live s'))"
    and cfg: "maxRequests s' = maxRequests s" "concurrency s' = concurrency s"
    and ex: "requestCount s' - requestCount s
           = int (length (executions s')) - int (length (executions s))"
    by simp_all
  from b cfg have bounds: "0 \<le> activeTasks s'" "activeTasks s' \<le> concurrency s"
    "0 \<le> requestCount s'" "requestCount s' \<le> maxRequests s"
    by (simp_all add: within_bounds_def)
  have idle: "headroom s = 0 \<longrightarrow> (processQueue ^^ n) s = s"
    by (simp add: funpow_processQueue)
  from bounds ex have "int (length (executions s')) - int (length (executions s))
           \<le> maxRequests s - requestCount s" by linarith
  with bounds d idle show ?thesis by (simp add: live_def)
qed

theorem reinvocation_safe_witness:
  "fire_all [Invoke, Completion 3 (Fail ''boom'')] (three_waiting \<lparr> requestCount := 0 \<rparr>)
     = Some after_throw \<and>
   activeTasks after_throw = 5 \<and> requestCount after_throw = 3 \<and>
   map idT (queue after_throw) = [''T''] \<and>
   distinct (map promise (queue after_throw @ awaiting after_throw)) \<and>
   int (length (executions after_throw))
     - int (length (executions (three_waiting \<lparr> requestCount := 0 \<rparr>)))
     \<le> maxRequests (three_waiting \<lparr> requestCount := 0 \<rparr>)
         - requestCount (three_waiting \<lparr> requestCount := 0 \<rparr>)"
proof -
  have b: "within_bounds (three_waiting \<lparr> requestCount := 0 \<rparr>)"
    by (simp add: within_bounds_def three_waiting_def)
  have d: "distinct (map promise (live (three_waiting \<lparr> requestCount := 0 \<rparr>)))"
    by (simp add: live_def three_waiting_def)
  have f: "fire_all [Invoke, Completion 3 (Fail ''boom'')] (three_waiting \<lparr> requestCount := 0 \<rparr>)
             = Some after_throw"
    by (simp add: three_waiting_def after_throw_def model_defs)
  from reinvocation_safe [OF b d f] f show ?thesis
    by (simp add: after_throw_def three_waiting_def)
qed

text \<open>
  The claim as stated fails: in the state the timer callback finds when two jobs wait and
  the window has just been reset, one invocation dequeues job 3 only, two invocations
  dequeue jobs 3 and 4.
\<close>

theorem processQueue_not_idempotent:
  "run [AddTask (job ''1''), AddTask (job ''2''), AddTask (job ''3''), AddTask (job ''4'')]
       (constructor wide_options) = Some two_waiting \<and>
   map idT (queue (processQueue (two_waiting \<lparr> requestCount := 0 \<rparr>))) = [''4''] \<and>
   map idT (queue (processQueue (processQueue (two_waiting \<lparr> requestCount := 0 \<rparr>)))) = [] \<and>
   processQueue (processQueue (two_waiting \<lparr> requestCount := 0 \<rparr>))
     \<noteq> processQueue (two_waiting \<lparr> requestCount := 0 \<rparr>)"
  by (simp add: two_waiting_def wide_options_def job_def model_defs)

section \<open>The window timer\<close>

text \<open>
  Claim C9, amended. The timer registered by the constructor is never cleared: after every
  run of submissions, ticks and completions it is still registered with the period given
  at construction, and it can fire again. The class offers \<open>addTask\<close> as its only public
  operation, and nothing stops the timer.
\<close>

theorem timer_never_stopped:
  assumes "run evs (constructor options) = Some s"
  shows "timers s = [interval_opt options] \<and> step Tick s = Some (tick s)"
proof -
  from run_config [OF assms] have "timers s = [interval_opt options]"
    by (simp add: constructor_def)
  then show ?thesis by (simp add: step_def)
qed

theorem timer_never_stopped_witness:
  "run [AddTask (job ''1''), Settled 0 (Ok ''done''), AddTask (job ''2'')]
       (constructor readme_options) = Some one_done_one_running \<and>
   timers one_done_one_running = [1000] \<and>
   step Tick one_done_one_running = Some (tick one_done_one_running)"
proof -
  have r: "run [AddTask (job ''1''), Settled 0 (Ok ''done''), AddTask (job ''2'')]
       (constructor readme_options) = Some one_done_one_running"
    by (simp add: one_done_one_running_def readme_options_def job_def model_defs)
  from timer_never_stopped [OF r] r show ?thesis
    by (simp add: readme_options_def)
qed

text \<open>
  The claim as stated fails: after the only public operation the timer is still
  registered.
\<close>

theorem timer_survives_addTask:
  "timers (snd (addTask (job ''1'') (constructor readme_options :: string AntiRateLimit))) = [1000] \<and>
   timers (snd (addTask (job ''1'') (constructor readme_options :: string AntiRateLimit))) \<noteq> []"
  by (simp add: readme_options_def job_def model_defs)

section \<open>The default concurrency\<close>

text \<open>
  Claim C10. A scheduler constructed with a concurrency that is absent or \<open>0\<close> has the
  concurrency 1, and it does launch tasks: with a positive \<open>maxRequests\<close>, the first task
  submitted is executed at once.
\<close>

theorem falsy_concurrency_defaults_to_one:
  assumes "concurrency_opt options = None \<or> concurrency_opt options = Some 0"
  shows "concurrency (constructor options) = 1 \<and>
         (0 < maxRequests_opt options \<longrightarrow>
            executions (snd (addTask task (constructor options))) = [0])"
  using assms
  by (auto simp add: constructor_def js_or_def addTask_def Let_def processQueue_def sort_queue_def)

theorem falsy_concurrency_defaults_to_one_witness:
  "concurrency_opt zero_concurrency_options = Some 0 \<and>
   concurrency (constructor zero_concurrency_options :: string AntiRateLimit) = 1 \<and>
   executions (snd (addTask (job ''1'') (constructor zero_concurrency_options :: string AntiRateLimit)))
     = [0]"
proof -
  have z: "concurrency_opt zero_concurrency_options = None \<or>
           concurrency_opt zero_concurrency_options = Some 0"
    by (simp add: zero_concurrency_options_def)
  from falsy_concurrency_defaults_to_one
         [OF z, of "job ''1''", where 'a = string]
  show ?thesis by (simp add: zero_concurrency_options_def)
qed

end
